theory Spec2Isabelle
  imports Main
begin

section \<open>Data model of the pull-request checker\<close>

text \<open>
  The development follows \<^verbatim>\<open>src/index.js\<close>. JavaScript identifiers that start with
  an underscore lose it (\<^verbatim>\<open>_arrayIsWildcard\<close> is \<open>arrayIsWildcard\<close>), and the fields
  \<^verbatim>\<open>id\<close> and \<^verbatim>\<open>user\<close> of a pull request are \<open>pr_id\<close> and \<open>pr_user\<close>, because
  \<open>id\<close> is the identity function of HOL.
\<close>

text \<open>The part of a GitHub pull-request record that the program reads:
  \<^verbatim>\<open>pr.number\<close> and \<^verbatim>\<open>pr.user.login\<close>.\<close>

record pull_data =
  number :: int
  login :: string

text \<open>The object built by \<^verbatim>\<open>pullData.map(pr => { id: pr.number, user: pr.user.login })\<close>.\<close>

record pull =
  pr_id :: int
  pr_user :: string

text \<open>The part of a review record that the program reads: \<^verbatim>\<open>review.state\<close>.\<close>

record review =
  state :: string

text \<open>
  The module \<^verbatim>\<open>./lib/github\<close> lies outside \<^verbatim>\<open>index.js\<close>, so its two entry points are
  parameters of the model. A rejected promise is \<open>None\<close>. The arguments are those of
  the calls in \<^verbatim>\<open>_checkPRsForRepo\<close>: \<^verbatim>\<open>getRepo(org, repo, maxCacheAge)\<close> and
  \<^verbatim>\<open>getReviews(org, repo, id, maxCacheAge)\<close>.
\<close>

record github =
  getRepo :: "string \<Rightarrow> string \<Rightarrow> int \<Rightarrow> pull_data list option"
  getReviews :: "string \<Rightarrow> string \<Rightarrow> int \<Rightarrow> int \<Rightarrow> review list option"

text \<open>
  The three templates handed to \<^verbatim>\<open>sortedLog\<close>, with the values interpolated into
  each (the colour wrappers of \<^verbatim>\<open>chalk\<close> are left out):
  \<^item> \<open>NoPullsFound user repo\<close> is \<^verbatim>\<open>`${_prefix(user, repo)}: no pulls found`\<close>;
  \<^item> \<open>NeedsReview user repo org id\<close> is the three-line \<^verbatim>\<open>needs review!\<close> message with
    the pull-request URL and the clone command;
  \<^item> \<open>Reviewed user repo st\<close> is \<^verbatim>\<open>`${prefix}: reviewed, status: ${review.state}`\<close>.
\<close>

datatype line =
  NoPullsFound string string
| NeedsReview string string string int
| Reviewed string string string

text \<open>
  What one run of \<^verbatim>\<open>_checkPRsForRepo\<close> does to the outside, in program order: the calls
  into \<^verbatim>\<open>./lib/github\<close> (with the \<^verbatim>\<open>maxCacheAge\<close> they carry) and the lines handed
  to \<^verbatim>\<open>sortedLog\<close>.
\<close>

datatype event =
  GetRepo string string int
| GetReviews string string int int
| SortedLog line

text \<open>
  The exceptions of the program: \<open>InvalidMaxCacheAge\<close> is
  \<^verbatim>\<open>new Error('Invalid maxCacheAge.')\<close>, and \<open>FetchError\<close> is the rejection of a call
  into \<^verbatim>\<open>./lib/github\<close>.
\<close>

datatype error = InvalidMaxCacheAge | FetchError

section \<open>Helpers of index.js\<close>

text \<open>\<^verbatim>\<open>const _arrayIsWildcard = x => x.length === 1 && x[0] === '@';\<close>\<close>

definition arrayIsWildcard :: "string list \<Rightarrow> bool" where
  "arrayIsWildcard x = (length x = 1 \<and> x ! 0 = ''@'')"

text \<open>
  \<^verbatim>\<open>_negateDate\<close>. The parser \<^verbatim>\<open>parseDate\<close> of chrono-node is a parameter: it
  returns a point in time (milliseconds) or \<^verbatim>\<open>null\<close>, here \<open>None\<close>. \<open>now\<close> is the value
  of \<^verbatim>\<open>moment()\<close>. The \<^verbatim>\<open>throw\<close> is the \<open>Inl\<close> branch.
\<close>

definition negateDate :: "(string \<Rightarrow> int option) \<Rightarrow> int \<Rightarrow> string \<Rightarrow> error + int" where
  "negateDate parseDate now dateStr =
     (case parseDate dateStr of
        Some parsed \<Rightarrow> (let duration = parsed - now in Inr (now - duration))
      | None \<Rightarrow> Inl InvalidMaxCacheAge)"

text \<open>
  \<^verbatim>\<open>arrDedupe\<close> is the package array-uniq, \<^verbatim>\<open>[...new Set(array)]\<close>: each value is kept
  at its first occurrence.
\<close>

fun arrDedupe :: "'a list \<Rightarrow> 'a list" where
  "arrDedupe [] = []"
| "arrDedupe (x # xs) = x # arrDedupe (filter (\<lambda>y. y \<noteq> x) xs)"

section \<open>Reconciliation of one repository\<close>

text \<open>The \<^verbatim>\<open>pullData.map\<close> at the head of \<^verbatim>\<open>_checkPRsForRepo\<close>.\<close>

definition toPull :: "pull_data \<Rightarrow> pull" where
  "toPull pr = \<lparr>pr_id = number pr, pr_user = login pr\<rparr>"

text \<open>
  The \<^verbatim>\<open>if (!_arrayIsWildcard(users))\<close> statement assigns either \<^verbatim>\<open>pulls\<close> or
  \<^verbatim>\<open>users\<close>; these are the two variables after it.
\<close>

definition filterPulls :: "string list \<Rightarrow> pull list \<Rightarrow> pull list" where
  "filterPulls users pulls =
     (if \<not> arrayIsWildcard users
      then filter (\<lambda>pr. List.member users (pr_user pr)) pulls
      else pulls)"

definition resolveUsers :: "string list \<Rightarrow> pull list \<Rightarrow> string list" where
  "resolveUsers users pulls =
     (if \<not> arrayIsWildcard users
      then users
      else arrDedupe (map pr_user pulls))"

text \<open>The loop \<^verbatim>\<open>for (const user of users)\<close> that checks for missing pull requests.\<close>

fun missingPRs :: "string \<Rightarrow> pull list \<Rightarrow> string list \<Rightarrow> event list" where
  "missingPRs repo pulls [] = []"
| "missingPRs repo pulls (u # us) =
     (if \<not> list_ex (\<lambda>pr. pr_user pr = u) pulls
      then SortedLog (NoPullsFound u repo) # missingPRs repo pulls us
      else missingPRs repo pulls us)"

text \<open>
  \<^verbatim>\<open>Promise.all\<close> over promises that are already started: it fulfils with the list of
  all values when every promise fulfils, and rejects when one rejects.
\<close>

fun promiseAll :: "'a option list \<Rightarrow> 'a list option" where
  "promiseAll [] = Some []"
| "promiseAll (None # ps) = None"
| "promiseAll (Some v # ps) = (case promiseAll ps of None \<Rightarrow> None | Some vs \<Rightarrow> Some (v # vs))"

text \<open>The body of the final \<^verbatim>\<open>for\<close> loop, for one pull request and its reviews.\<close>

definition reviewStatus :: "string \<Rightarrow> string \<Rightarrow> pull \<Rightarrow> review list \<Rightarrow> event" where
  "reviewStatus org repo pr reviews =
     (if length reviews < 1
      then SortedLog (NeedsReview (pr_user pr) repo org (pr_id pr))
      else (let review = reviews ! 0
            in SortedLog (Reviewed (pr_user pr) repo (state review))))"

text \<open>
  The loop \<^verbatim>\<open>for (let i = 0; i < reviewsForPulls.length; i++)\<close>, which reads
  \<^verbatim>\<open>pulls[i]\<close> and \<^verbatim>\<open>reviewsForPulls[i]\<close>; the two arrays have the same length.
\<close>

fun reviewLoop :: "string \<Rightarrow> string \<Rightarrow> pull list \<Rightarrow> review list list \<Rightarrow> event list" where
  "reviewLoop org repo (pr # pulls) (reviews # rest) =
     reviewStatus org repo pr reviews # reviewLoop org repo pulls rest"
| "reviewLoop org repo _ _ = []"

text \<open>
  \<^verbatim>\<open>_checkPRsForRepo\<close>. The result is the trace of the run and how the returned promise
  settles: \<open>Inr ()\<close> when it fulfils, \<open>Inl FetchError\<close> when an awaited fetch rejects.
  All review fetches are issued by \<^verbatim>\<open>pulls.map\<close> before the join is awaited.
\<close>

definition checkPRsForRepo ::
  "github \<Rightarrow> string \<Rightarrow> string \<Rightarrow> string list \<Rightarrow> int \<Rightarrow> event list \<times> (error + unit)" where
  "checkPRsForRepo gh org repo users maxCacheAge =
     (case getRepo gh org repo maxCacheAge of
        None \<Rightarrow> ([GetRepo org repo maxCacheAge], Inl FetchError)
      | Some pullData \<Rightarrow>
          (let pulls0 = map toPull pullData;
               pulls = filterPulls users pulls0;
               users' = resolveUsers users pulls0;
               missing = missingPRs repo pulls users';
               calls = map (\<lambda>pr. GetReviews org repo (pr_id pr) maxCacheAge) pulls;
               fetched = map (\<lambda>pr. getReviews gh org repo (pr_id pr) maxCacheAge) pulls
           in (case promiseAll fetched of
                 None \<Rightarrow> (GetRepo org repo maxCacheAge # missing @ calls, Inl FetchError)
               | Some reviewsForPulls \<Rightarrow>
                   (GetRepo org repo maxCacheAge # missing @ calls
                      @ reviewLoop org repo pulls reviewsForPulls,
                    Inr ()))))"

text \<open>The lines a trace hands to \<^verbatim>\<open>sortedLog\<close>.\<close>

fun logged :: "event list \<Rightarrow> line list" where
  "logged [] = []"
| "logged (SortedLog l # es) = l # logged es"
| "logged (_ # es) = logged es"

section \<open>The check command\<close>

text \<open>The keys of the persisted configuration that the check command reads in its
  handler and in the default of \<^verbatim>\<open>org\<close>; an absent key is \<open>None\<close>.\<close>

record config =
  githubOrg :: "string option"
  allGithubRepos :: "string list option"

text \<open>
  The first statement of the handler:
  \<^verbatim>\<open>if (_arrayIsWildcard(repos)) { repos = config.get('allGithubRepos') || []; }\<close>
\<close>

definition resolveRepos :: "config \<Rightarrow> string list \<Rightarrow> string list" where
  "resolveRepos cfg repos =
     (if arrayIsWildcard repos
      then (case allGithubRepos cfg of Some rs \<Rightarrow> rs | None \<Rightarrow> [])
      else repos)"

text \<open>
  The handler starts one \<^verbatim>\<open>_checkPRsForRepo\<close> per repository, each with the same
  \<^verbatim>\<open>opts.org\<close>, \<^verbatim>\<open>opts.authors\<close> and \<^verbatim>\<open>opts.maxCacheAge\<close>. The result lists, in
  the order of \<^verbatim>\<open>repos\<close>, the trace and the outcome of each task; how the tasks
  interleave in time is the subject of the limiter model below.
\<close>

definition checkHandler ::
  "github \<Rightarrow> config \<Rightarrow> string \<Rightarrow> string list \<Rightarrow> string list \<Rightarrow> int
     \<Rightarrow> (event list \<times> (error + unit)) list" where
  "checkHandler gh cfg org repos authors maxCacheAge =
     map (\<lambda>repo. checkPRsForRepo gh org repo authors maxCacheAge) (resolveRepos cfg repos)"

text \<open>
  One \<^verbatim>\<open>check\<close> invocation. The option \<^verbatim>\<open>maxCacheAge\<close> has
  \<^verbatim>\<open>coerce: age => _negateDate(age)\<close>, which the argument parser applies while it
  builds \<^verbatim>\<open>opts\<close>, before it calls the handler; an exception there ends the
  invocation.
\<close>

definition checkCommand ::
  "(string \<Rightarrow> int option) \<Rightarrow> int \<Rightarrow> github \<Rightarrow> config \<Rightarrow> string \<Rightarrow> string list
     \<Rightarrow> string list \<Rightarrow> string \<Rightarrow> error + (event list \<times> (error + unit)) list" where
  "checkCommand parseDate now gh cfg org repos authors dateStr =
     (case negateDate parseDate now dateStr of
        Inl e \<Rightarrow> Inl e
      | Inr maxCacheAge \<Rightarrow> Inr (checkHandler gh cfg org repos authors maxCacheAge))"

text \<open>All events of an invocation, task by task.\<close>

definition allEvents :: "(event list \<times> (error + unit)) list \<Rightarrow> event list" where
  "allEvents rs = concat (map fst rs)"

text \<open>The \<^verbatim>\<open>maxCacheAge\<close> argument of a call into \<^verbatim>\<open>./lib/github\<close>.\<close>

fun cacheAgeOf :: "event \<Rightarrow> int option" where
  "cacheAgeOf (GetRepo org repo age) = Some age"
| "cacheAgeOf (GetReviews org repo n age) = Some age"
| "cacheAgeOf (SortedLog l) = None"

subsection \<open>The default of the org option\<close>

text \<open>Decimal rendering of a number inside a template string.\<close>

fun showNat :: "nat \<Rightarrow> string" where
  "showNat n =
     (if n < 10 then [char_of (48 + n)]
      else showNat (n div 10) @ [char_of (48 + n mod 10)])"

definition showInt :: "int \<Rightarrow> string" where
  "showInt i = (if i < 0 then CHR ''-'' # showNat (nat (- i)) else showNat (nat i))"

text \<open>\<^verbatim>\<open>String.prototype.startsWith\<close>.\<close>

definition startsWith :: "string \<Rightarrow> string \<Rightarrow> bool" where
  "startsWith s p = (take (length p) s = p)"

text \<open>
  The function given as \<^verbatim>\<open>default\<close> of \<^verbatim>\<open>org\<close>. \<open>months\<close> is the integer
  \<^verbatim>\<open>moment().diff(moment('2013-06-01'), 'months')\<close>, and \<open>cfgOrg\<close> is
  \<^verbatim>\<open>config.get('githubOrg')\<close>. The result is the lines written by
  \<^verbatim>\<open>console.log\<close> and the returned value. The empty string is falsy in
  \<^verbatim>\<open>cfgOrg && ...\<close> and in \<^verbatim>\<open>cfgOrg || autoOrgName\<close>.
\<close>

definition autoOrgName :: "int \<Rightarrow> string" where
  "autoOrgName months = (let cohort = months div 6 in ''Ada-C'' @ showInt cohort)"

definition orgDefault :: "int \<Rightarrow> string option \<Rightarrow> string list \<times> string" where
  "orgDefault months cfgOrg =
     (case cfgOrg of
        None \<Rightarrow> ([], autoOrgName months)
      | Some c \<Rightarrow>
          if c = [] then ([], autoOrgName months)
          else if startsWith c ''Ada-C'' \<and> c \<noteq> autoOrgName months
          then ([''WARN GitHub org name may be outdated!'',
                 char_of (9::nat) # c @ '' --> '' @ autoOrgName months], c)
          else ([], c))"

section \<open>The batch of repository tasks\<close>

text \<open>
  The handler runs
  \<^verbatim>\<open>const limit = pLimit(MAX_CONCURRENT_REPO_CHECKS);\<close>
  \<^verbatim>\<open>const promises = repos.map(repo => limit(() => _checkPRsForRepo(...)));\<close>
  \<^verbatim>\<open>return Promise.all(promises);\<close>
  A task is the position of its repository in \<^verbatim>\<open>repos\<close>. Its promise is pending while
  the task is \<open>Queued\<close> or \<open>Running\<close>.
\<close>

definition MAX_CONCURRENT_REPO_CHECKS :: nat where
  "MAX_CONCURRENT_REPO_CHECKS = 5"

datatype task_state = Queued | Running | Fulfilled | Rejected

record batch =
  activeCount :: nat
  queue :: "nat list"
  tasks :: "task_state list"

text \<open>
  Modelled from the spec: the Concurrency Limiter, which the program takes from the
  package p-limit; its code lies outside \<^verbatim>\<open>index.js\<close>. The spec describes a
  counting semaphore with a FIFO queue. Starting a task body counts it as active.
\<close>

definition run :: "batch \<Rightarrow> nat \<Rightarrow> batch" where
  "run s i = s\<lparr>activeCount := activeCount s + 1, tasks := (tasks s)[i := Running]\<rparr>"

text \<open>
  Modelled from the spec: the Concurrency Limiter's \<^verbatim>\<open>schedule(task)\<close>, that is
  \<^verbatim>\<open>limit(fn)\<close> with cap \<open>k\<close>. The new task starts at once when fewer than \<open>k\<close>
  bodies are executing; when the limiter is saturated it joins the end of the queue.
\<close>

definition enqueue :: "nat \<Rightarrow> batch \<Rightarrow> batch" where
  "enqueue k s =
     (let i = length (tasks s);
          s' = s\<lparr>tasks := tasks s @ [Queued]\<rparr>
      in if activeCount s' < k then run s' i else s'\<lparr>queue := queue s' @ [i]\<rparr>)"

text \<open>
  Modelled from the spec: what the Concurrency Limiter does when a task body has
  settled, by success or by failure alike: the task stops counting as active, and the
  task at the head of the queue, if there is one, is admitted immediately.
\<close>

definition admitNext :: "batch \<Rightarrow> batch" where
  "admitNext s =
     (let s' = s\<lparr>activeCount := activeCount s - 1\<rparr>
      in case queue s' of
           [] \<Rightarrow> s'
         | i # q \<Rightarrow> run (s'\<lparr>queue := q\<rparr>) i)"

text \<open>
  The body of task \<open>i\<close> settles: \<open>ok\<close> tells whether \<^verbatim>\<open>_checkPRsForRepo\<close> fulfilled or
  rejected. Only a running body can settle; \<open>None\<close> says that the event cannot happen
  in this state.
\<close>

fun settle :: "batch \<Rightarrow> nat \<times> bool \<Rightarrow> batch option" where
  "settle s (i, ok) =
     (if i < length (tasks s) \<and> tasks s ! i = Running
      then Some (admitNext (s\<lparr>tasks := (tasks s)[i := if ok then Fulfilled else Rejected]\<rparr>))
      else None)"

text \<open>A schedule is the order in which the task bodies settle.\<close>

fun exec :: "batch \<Rightarrow> (nat \<times> bool) list \<Rightarrow> batch option" where
  "exec s [] = Some s"
| "exec s (e # es) = (case settle s e of None \<Rightarrow> None | Some s' \<Rightarrow> exec s' es)"

text \<open>\<^verbatim>\<open>repos.map(repo => limit(...))\<close>: the tasks are submitted synchronously, in the
  order of \<^verbatim>\<open>repos\<close>, to a fresh limiter.\<close>

definition submit :: "'a list \<Rightarrow> batch" where
  "submit repos =
     fold (\<lambda>repo. enqueue MAX_CONCURRENT_REPO_CHECKS) repos
       \<lparr>activeCount = 0, queue = [], tasks = []\<rparr>"

text \<open>
  The promise returned by \<^verbatim>\<open>Promise.all(promises)\<close>, read off the promises of the
  tasks: it is rejected once one of them is rejected, fulfilled once all of them are
  fulfilled, and pending otherwise.
\<close>

datatype promise_state = Pending | AllFulfilled | AllRejected

definition batchPromise :: "batch \<Rightarrow> promise_state" where
  "batchPromise s =
     (if list_ex (\<lambda>t. t = Rejected) (tasks s) then AllRejected
      else if list_all (\<lambda>t. t = Fulfilled) (tasks s) then AllFulfilled
      else Pending)"

definition settled :: "task_state \<Rightarrow> bool" where
  "settled t = (t = Fulfilled \<or> t = Rejected)"

definition running :: "batch \<Rightarrow> nat" where
  "running s = length (filter (\<lambda>t. t = Running) (tasks s))"

section \<open>Observations on traces and example inputs\<close>

text \<open>A \<^verbatim>\<open>no pulls found\<close> line, as opposed to a line about a pull request.\<close>

fun isMissing :: "line \<Rightarrow> bool" where
  "isMissing (NoPullsFound u r) = True"
| "isMissing _ = False"

text \<open>The lines of a trace that report a pull request, in the order they were logged.\<close>

definition reportedPulls :: "event list \<Rightarrow> line list" where
  "reportedPulls tr = filter (\<lambda>l. \<not> isMissing l) (logged tr)"

text \<open>The same service, except that every review sequence is cut after its first
  element.\<close>

definition firstOnly :: "github \<Rightarrow> github" where
  "firstOnly gh =
     gh\<lparr>getReviews := \<lambda>org repo n age. map_option (take (Suc 0)) (getReviews gh org repo n age)\<rparr>"

text \<open>
  Example services. \<open>widgets\<close> answers with one pull request, number 1 by alice, that has
  no review; \<open>widgetsReviewed\<close> with pull request 2 by carol, reviewed twice;
  \<open>reviewsDown\<close> lists alice's pull request but fails every review fetch;
  \<open>brokenRepo\<close> fails to list the pull requests of the repository \<^verbatim>\<open>broken\<close>;
  \<open>noPulls\<close> lists no pull request.
\<close>

definition widgets :: github where
  "widgets = \<lparr>getRepo = (\<lambda>org repo age. Some [\<lparr>number = 1, login = ''alice''\<rparr>]),
              getReviews = (\<lambda>org repo n age. Some [])\<rparr>"

definition widgetsReviewed :: github where
  "widgetsReviewed =
     \<lparr>getRepo = (\<lambda>org repo age. Some [\<lparr>number = 2, login = ''carol''\<rparr>]),
      getReviews = (\<lambda>org repo n age.
         Some [\<lparr>state = ''CHANGES_REQUESTED''\<rparr>, \<lparr>state = ''APPROVED''\<rparr>])\<rparr>"

definition reviewsDown :: github where
  "reviewsDown = \<lparr>getRepo = (\<lambda>org repo age. Some [\<lparr>number = 1, login = ''alice''\<rparr>]),
                  getReviews = (\<lambda>org repo n age. None)\<rparr>"

definition brokenRepo :: github where
  "brokenRepo =
     \<lparr>getRepo = (\<lambda>org repo age.
         if repo = ''broken'' then None else Some [\<lparr>number = 1, login = ''alice''\<rparr>]),
      getReviews = (\<lambda>org repo n age. Some [])\<rparr>"

definition noPulls :: github where
  "noPulls = \<lparr>getRepo = (\<lambda>org repo age. Some []),
              getReviews = (\<lambda>org repo n age. Some [])\<rparr>"

text \<open>
  An example date parser, read at the instant \<open>now = 100000\<close>: \<^verbatim>\<open>60 minutes\<close> is the
  instant 3600000 ms later, \<^verbatim>\<open>60 minutes ago\<close> the instant 3600000 ms earlier, and
  nothing else parses.
\<close>

definition parseExample :: "string \<Rightarrow> int option" where
  "parseExample s =
     (if s = ''60 minutes'' then Some 3700000
      else if s = ''60 minutes ago'' then Some (- 3500000)
      else None)"

definition noConfig :: config where
  "noConfig = \<lparr>githubOrg = None, allGithubRepos = None\<rparr>"

text \<open>The state into which a settling body puts its task.\<close>

definition outcome :: "bool \<Rightarrow> task_state" where
  "outcome ok = (if ok then Fulfilled else Rejected)"

text \<open>The tasks that have not settled yet, queued or running.\<close>

definition pending :: "batch \<Rightarrow> nat" where
  "pending s = length (filter (\<lambda>t. \<not> settled t) (tasks s))"

text \<open>
  The invariant of the limiter with cap \<open>k\<close>: the counter is the number of running
  bodies and never exceeds the cap, tasks wait only while the limiter is saturated, and
  the queue holds exactly the queued tasks, each once.
\<close>

definition wellformed :: "nat \<Rightarrow> batch \<Rightarrow> bool" where
  "wellformed k s \<longleftrightarrow>
     activeCount s = running s \<and> activeCount s \<le> k
     \<and> (queue s \<noteq> [] \<longrightarrow> activeCount s = k)
     \<and> distinct (queue s)
     \<and> set (queue s) = {i. i < length (tasks s) \<and> tasks s ! i = Queued}"

text \<open>An example batch of seven repositories, two more than the cap.\<close>

definition sevenRepos :: "string list" where
  "sevenRepos = [''r1'', ''r2'', ''r3'', ''r4'', ''r5'', ''r6'', ''r7'']"

section \<open>Lemmas about one reconciliation\<close>

lemma arrayIsWildcard_iff: "arrayIsWildcard x \<longleftrightarrow> x = [''@'']"
  by (cases x) (auto simp: arrayIsWildcard_def)

lemma logged_append: "logged (xs @ ys) = logged xs @ logged ys"
  by (induction xs rule: logged.induct) auto

lemma logged_calls: "logged (map (\<lambda>pr. GetReviews org repo (f pr) age) pulls) = []"
  by (induction pulls) auto

lemma logged_missingPRs:
  "logged (missingPRs repo pulls us) =
     map (\<lambda>u. NoPullsFound u repo) (filter (\<lambda>u. u \<notin> pr_user ` set pulls) us)"
  by (induction us) (auto simp: list_ex_iff)

lemma promiseAll_map_Some: "promiseAll (map Some vs) = Some vs"
  by (induction vs) auto

lemma promiseAll_map_option:
  "promiseAll (map (map_option f) ps) = map_option (map f) (promiseAll ps)"
  by (induction ps rule: promiseAll.induct) (auto split: option.splits)

lemma logged_reviewLoop:
  "length rss = length pulls \<Longrightarrow>
   logged (reviewLoop org repo pulls rss) =
     map (\<lambda>(pr, rs). case rs of [] \<Rightarrow> NeedsReview (pr_user pr) repo org (pr_id pr)
                        | r # later \<Rightarrow> Reviewed (pr_user pr) repo (state r)) (zip pulls rss)"
proof (induction org repo pulls rss rule: reviewLoop.induct)
  case (1 org repo pr pulls reviews rest)
  then show ?case by (cases reviews) (auto simp: reviewStatus_def)
qed auto

lemma set_arrDedupe: "set (arrDedupe xs) = set xs"
  by (induction xs rule: arrDedupe.induct) auto

lemma distinct_arrDedupe: "distinct (arrDedupe xs)"
  by (induction xs rule: arrDedupe.induct) (auto simp: set_arrDedupe)

lemma reviewStatus_take1:
  "reviewStatus org repo pr (take (Suc 0) rs) = reviewStatus org repo pr rs"
  by (cases rs) (auto simp: reviewStatus_def)

lemma reviewLoop_take1:
  "reviewLoop org repo pulls (map (take (Suc 0)) rss) = reviewLoop org repo pulls rss"
  by (induction org repo pulls rss rule: reviewLoop.induct) (auto simp: reviewStatus_take1)

lemma checkPRsForRepo_firstOnly:
  "checkPRsForRepo (firstOnly gh) org repo users age = checkPRsForRepo gh org repo users age"
proof -
  have m: "(\<lambda>pr. map_option (take (Suc 0)) (getReviews gh org repo (pr_id pr) age))
         = map_option (take (Suc 0)) \<circ> (\<lambda>pr. getReviews gh org repo (pr_id pr) age)"
    by (simp add: fun_eq_iff)
  show ?thesis
    unfolding checkPRsForRepo_def firstOnly_def
    by (simp add: Let_def m promiseAll_map_option reviewLoop_take1
          flip: map_map split: option.splits)
qed

lemma no_pull_line_in_missingPRs:
  "filter (\<lambda>l. \<not> isMissing l) (logged (missingPRs repo pulls us)) = []"
  by (induction us) auto

lemma only_pull_lines_in_reviewLoop:
  "filter (\<lambda>l. \<not> isMissing l) (logged (reviewLoop org repo pulls rss))
     = logged (reviewLoop org repo pulls rss)"
  by (induction org repo pulls rss rule: reviewLoop.induct) (auto simp: reviewStatus_def)

lemma count_list_NoPullsFound:
  "count_list (map (\<lambda>u. NoPullsFound u repo) us) (NoPullsFound a repo) = count_list us a"
  by (induction us) auto

lemma count_list_filter: "P a \<Longrightarrow> count_list (filter P us) a = count_list us a"
  by (induction us) auto

lemma count_list_distinct: "distinct xs \<Longrightarrow> a \<in> set xs \<Longrightarrow> count_list xs a = 1"
  by (induction xs) auto

lemma count_list_reviewLoop:
  "count_list (logged (reviewLoop org repo pulls rss)) (NoPullsFound a r) = 0"
  by (induction org repo pulls rss rule: reviewLoop.induct) (auto simp: reviewStatus_def)

lemma reviewLoop_users:
  "l \<in> set (logged (reviewLoop org repo pulls rss)) \<Longrightarrow>
   (\<exists>pr\<in>set pulls. (\<exists>n. l = NeedsReview (pr_user pr) repo org n)
                   \<or> (\<exists>st. l = Reviewed (pr_user pr) repo st))"
  by (induction org repo pulls rss rule: reviewLoop.induct)
     (auto simp: reviewStatus_def Let_def split: if_splits)

text \<open>The log of a run whose pull-request list was fetched: first the lines for the
  missing authors, then the lines of the review loop, which are absent when the join
  over the review fetches rejects.\<close>

lemma logged_checkPRsForRepo:
  assumes "getRepo gh org repo age = Some pullData"
  shows "\<exists>rss. logged (fst (checkPRsForRepo gh org repo users age)) =
           logged (missingPRs repo (filterPulls users (map toPull pullData))
                     (resolveUsers users (map toPull pullData)))
           @ logged (reviewLoop org repo (filterPulls users (map toPull pullData)) rss)
         \<and> (snd (checkPRsForRepo gh org repo users age) \<noteq> Inr () \<longrightarrow> rss = [])"
proof (cases "promiseAll (map (\<lambda>pr. getReviews gh org repo (pr_id pr) age)
                (filterPulls users (map toPull pullData)))")
  case None
  with assms have "logged (fst (checkPRsForRepo gh org repo users age)) =
           logged (missingPRs repo (filterPulls users (map toPull pullData))
                     (resolveUsers users (map toPull pullData)))
           @ logged (reviewLoop org repo (filterPulls users (map toPull pullData)) [])"
    by (simp add: checkPRsForRepo_def Let_def logged_append logged_calls)
  then show ?thesis by blast
next
  case (Some rss)
  with assms have "logged (fst (checkPRsForRepo gh org repo users age)) =
           logged (missingPRs repo (filterPulls users (map toPull pullData))
                     (resolveUsers users (map toPull pullData)))
           @ logged (reviewLoop org repo (filterPulls users (map toPull pullData)) rss)"
    and "snd (checkPRsForRepo gh org repo users age) = Inr ()"
    by (simp_all add: checkPRsForRepo_def Let_def logged_append logged_calls)
  then show ?thesis by blast
qed

lemma missing_lines:
  "logged (missingPRs repo (filterPulls users (map toPull pullData))
             (resolveUsers users (map toPull pullData))) =
     map (\<lambda>u. NoPullsFound u repo)
       (filter (\<lambda>u. u \<notin> login ` set pullData) (resolveUsers users (map toPull pullData)))"
proof (cases "arrayIsWildcard users")
  case True
  have "pr_user ` toPull ` set pullData = login ` set pullData"
    by (force simp: toPull_def)
  with True show ?thesis
    by (simp add: logged_missingPRs filterPulls_def resolveUsers_def set_arrDedupe)
next
  case False
  have "filter (\<lambda>u. u \<notin> pr_user ` set (filterPulls users (map toPull pullData))) users
      = filter (\<lambda>u. u \<notin> login ` set pullData) users"
    using False by (intro filter_cong) (force simp: filterPulls_def toPull_def)+
  with False show ?thesis
    by (simp add: logged_missingPRs resolveUsers_def)
qed

lemma missing_lines_wildcard:
  "arrayIsWildcard users \<Longrightarrow>
   filter (\<lambda>u. u \<notin> login ` set pullData) (resolveUsers users (map toPull pullData)) = []"
  by (force simp: resolveUsers_def set_arrDedupe toPull_def filter_empty_conv)

lemma cacheAge_missingPRs: "e \<in> set (missingPRs repo pulls us) \<Longrightarrow> cacheAgeOf e = None"
  by (induction us) (auto split: if_splits)

lemma cacheAge_reviewLoop: "e \<in> set (reviewLoop org repo pulls rss) \<Longrightarrow> cacheAgeOf e = None"
  by (induction org repo pulls rss rule: reviewLoop.induct) (auto simp: reviewStatus_def)

lemma cacheAge_checkPRsForRepo:
  "e \<in> set (fst (checkPRsForRepo gh org repo users age)) \<Longrightarrow> cacheAgeOf e = Some a \<Longrightarrow> a = age"
  by (auto simp: checkPRsForRepo_def Let_def split: option.splits
        dest: cacheAge_missingPRs cacheAge_reviewLoop)

section \<open>Classification of pull requests\<close>

text \<open>
  Claim C3. When the pull-request list and every review fetch of a repository have
  arrived, \<^verbatim>\<open>_checkPRsForRepo\<close> reports the processed pull requests one by one, in
  order: a pull request whose review sequence is empty is reported as needing review,
  and one whose sequence is not empty is reported as reviewed with the state of the
  first element of the sequence. The later elements do not matter: cutting every
  review sequence after its first element changes nothing in the run.
\<close>

theorem first_review_decides_status:
  assumes repo_ok: "getRepo gh org repo age = Some pullData"
    and pulls: "pulls = filterPulls users (map toPull pullData)"
    and reviews_ok: "map (\<lambda>pr. getReviews gh org repo (pr_id pr) age) pulls = map Some rss"
  shows "reportedPulls (fst (checkPRsForRepo gh org repo users age)) =
           map (\<lambda>(pr, reviews).
                  case reviews of
                    [] \<Rightarrow> NeedsReview (pr_user pr) repo org (pr_id pr)
                  | first # later \<Rightarrow> Reviewed (pr_user pr) repo (state first))
               (zip pulls rss)
         \<and> checkPRsForRepo (firstOnly gh) org repo users age
             = checkPRsForRepo gh org repo users age"
proof -
  have len: "length rss = length pulls"
    using reviews_ok by (metis length_map)
  have "checkPRsForRepo gh org repo users age =
          (GetRepo org repo age # missingPRs repo pulls (resolveUsers users (map toPull pullData))
             @ map (\<lambda>pr. GetReviews org repo (pr_id pr) age) pulls
             @ reviewLoop org repo pulls rss, Inr ())"
    using repo_ok pulls reviews_ok
    by (simp add: checkPRsForRepo_def Let_def promiseAll_map_Some)
  then have "reportedPulls (fst (checkPRsForRepo gh org repo users age)) =
          logged (reviewLoop org repo pulls rss)"
    by (simp add: reportedPulls_def logged_append logged_calls no_pull_line_in_missingPRs
          only_pull_lines_in_reviewLoop)
  then show ?thesis
    using len by (simp add: logged_reviewLoop checkPRsForRepo_firstOnly)
qed

theorem first_review_decides_status_witness:
  "reportedPulls (fst (checkPRsForRepo widgetsReviewed ''Ada-C9'' ''widgets'' [''@''] 0))
     = [Reviewed ''carol'' ''widgets'' ''CHANGES_REQUESTED'']"
proof -
  have h1: "getRepo widgetsReviewed ''Ada-C9'' ''widgets'' 0
              = Some [\<lparr>number = 2, login = ''carol''\<rparr>]"
    by (simp add: widgetsReviewed_def)
  have h2: "[\<lparr>pr_id = 2, pr_user = ''carol''\<rparr>]
              = filterPulls [''@''] (map toPull [\<lparr>number = 2, login = ''carol''\<rparr>])"
    by (simp add: filterPulls_def toPull_def arrayIsWildcard_def)
  have h3: "map (\<lambda>pr. getReviews widgetsReviewed ''Ada-C9'' ''widgets'' (pr_id pr) 0)
              [\<lparr>pr_id = 2, pr_user = ''carol''\<rparr>]
            = map Some [[\<lparr>state = ''CHANGES_REQUESTED''\<rparr>, \<lparr>state = ''APPROVED''\<rparr>]]"
    by (simp add: widgetsReviewed_def)
  from first_review_decides_status [OF h1 h2 h3] show ?thesis by simp
qed

section \<open>Authors without a pull request\<close>

text \<open>
  Claim C4 says that an explicit author list yields exactly one \<^verbatim>\<open>no pulls found\<close>
  line for each of its authors without a pull request. The program does not
  deduplicate an explicit list (\<^verbatim>\<open>arrDedupe\<close> is applied in the wildcard branch only),
  and the loop over \<^verbatim>\<open>users\<close> logs once per element: with the authors
  \<^verbatim>\<open>['bob', 'bob']\<close> and no pull request, bob is reported twice.
\<close>

theorem duplicate_author_reported_twice:
  "\<not> arrayIsWildcard [''bob'', ''bob'']
   \<and> getRepo noPulls ''Ada-C9'' ''widgets'' 0 = Some []
   \<and> count_list (logged (fst (checkPRsForRepo noPulls ''Ada-C9'' ''widgets'' [''bob'', ''bob''] 0)))
        (NoPullsFound ''bob'' ''widgets'') = 2"
  by (simp add: checkPRsForRepo_def noPulls_def filterPulls_def resolveUsers_def
        arrayIsWildcard_def)

text \<open>
  Claim C4, amended. For an explicit (non-wildcard) author list and an author of it
  who has no pull request among those fetched for the repository, the run logs one
  \<^verbatim>\<open>no pulls found\<close> line for that author and repository per occurrence of the author
  in the list, hence exactly one when the list has no duplicates, and it logs no
  \<^verbatim>\<open>needs review\<close> and no \<^verbatim>\<open>reviewed\<close> line for that author.
\<close>

theorem missing_author_reported_per_occurrence:
  assumes explicit: "\<not> arrayIsWildcard users"
    and repo_ok: "getRepo gh org repo age = Some pullData"
    and listed: "a \<in> set users"
    and no_pulls: "a \<notin> login ` set pullData"
  shows "count_list (logged (fst (checkPRsForRepo gh org repo users age))) (NoPullsFound a repo)
           = count_list users a
       \<and> (distinct users \<longrightarrow>
            count_list (logged (fst (checkPRsForRepo gh org repo users age)))
              (NoPullsFound a repo) = 1)
       \<and> (\<forall>l \<in> set (logged (fst (checkPRsForRepo gh org repo users age))).
            (\<forall>r org' n. l \<noteq> NeedsReview a r org' n) \<and> (\<forall>r st. l \<noteq> Reviewed a r st))"
proof -
  let ?pulls = "filterPulls users (map toPull pullData)"
  obtain rss where log:
    "logged (fst (checkPRsForRepo gh org repo users age)) =
       logged (missingPRs repo ?pulls (resolveUsers users (map toPull pullData)))
       @ logged (reviewLoop org repo ?pulls rss)"
    using logged_checkPRsForRepo [OF repo_ok] by blast
  have a_none: "a \<notin> pr_user ` set ?pulls"
    using no_pulls explicit by (auto simp: filterPulls_def toPull_def)
  have users: "resolveUsers users (map toPull pullData) = users"
    using explicit by (simp add: resolveUsers_def)
  have cnt: "count_list (logged (fst (checkPRsForRepo gh org repo users age)))
               (NoPullsFound a repo) = count_list users a"
    using a_none
    by (simp add: log users logged_missingPRs count_list_reviewLoop count_list_NoPullsFound
          count_list_filter)
  have one: "distinct users \<Longrightarrow> count_list users a = 1"
    using listed by (simp add: count_list_distinct)
  have other: "\<forall>l \<in> set (logged (fst (checkPRsForRepo gh org repo users age))).
            (\<forall>r org' n. l \<noteq> NeedsReview a r org' n) \<and> (\<forall>r st. l \<noteq> Reviewed a r st)"
  proof
    fix l assume "l \<in> set (logged (fst (checkPRsForRepo gh org repo users age)))"
    then consider "l \<in> set (logged (missingPRs repo ?pulls users))"
      | "l \<in> set (logged (reviewLoop org repo ?pulls rss))"
      by (auto simp: log users)
    then show "(\<forall>r org' n. l \<noteq> NeedsReview a r org' n) \<and> (\<forall>r st. l \<noteq> Reviewed a r st)"
    proof cases
      case 1
      then show ?thesis by (auto simp: logged_missingPRs)
    next
      case 2
      from reviewLoop_users [OF this] a_none show ?thesis by auto
    qed
  qed
  from cnt one other show ?thesis by simp
qed

theorem missing_author_reported_per_occurrence_witness:
  "\<not> arrayIsWildcard [''alice'', ''bob'']
   \<and> ''bob'' \<in> set [''alice'', ''bob'']
   \<and> count_list (logged (fst (checkPRsForRepo widgets ''Ada-C9'' ''widgets'' [''alice'', ''bob''] 0)))
       (NoPullsFound ''bob'' ''widgets'') = 1
   \<and> logged (fst (checkPRsForRepo widgets ''Ada-C9'' ''widgets'' [''alice'', ''bob''] 0))
       = [NoPullsFound ''bob'' ''widgets'', NeedsReview ''alice'' ''widgets'' ''Ada-C9'' 1]"
proof -
  have h1: "\<not> arrayIsWildcard [''alice'', ''bob'']" by (simp add: arrayIsWildcard_def)
  have h2: "getRepo widgets ''Ada-C9'' ''widgets'' 0 = Some [\<lparr>number = 1, login = ''alice''\<rparr>]"
    by (simp add: widgets_def)
  have h3: "''bob'' \<in> set [''alice'', ''bob'']" by simp
  have h4: "''bob'' \<notin> login ` set [\<lparr>number = 1, login = ''alice''\<rparr>]" by simp
  have h5: "distinct [''alice'', ''bob'']" by simp
  have l: "logged (fst (checkPRsForRepo widgets ''Ada-C9'' ''widgets'' [''alice'', ''bob''] 0))
       = [NoPullsFound ''bob'' ''widgets'', NeedsReview ''alice'' ''widgets'' ''Ada-C9'' 1]"
    by (simp add: checkPRsForRepo_def widgets_def toPull_def filterPulls_def resolveUsers_def
          arrayIsWildcard_def reviewStatus_def)
  from missing_author_reported_per_occurrence [OF h1 h2 h3 h4] h1 h3 h5 l
  show ?thesis by blast
qed

text \<open>
  Claim C5. With the wildcard as author list, \<^verbatim>\<open>users\<close> becomes the authors of the
  fetched pull requests, each once; the run logs no \<^verbatim>\<open>no pulls found\<close> line; and
  when the repository has no pull request the run fetches the list, logs nothing and
  fulfils.
\<close>

theorem wildcard_resolves_to_observed_authors:
  assumes wild: "arrayIsWildcard users"
  shows "distinct (resolveUsers users pulls)
       \<and> set (resolveUsers users pulls) = pr_user ` set pulls
       \<and> (\<forall>l \<in> set (logged (fst (checkPRsForRepo gh org repo users age))). \<not> isMissing l)
       \<and> (getRepo gh org repo age = Some [] \<longrightarrow>
            checkPRsForRepo gh org repo users age = ([GetRepo org repo age], Inr ()))"
proof -
  have res: "distinct (resolveUsers users pulls)"
    "set (resolveUsers users pulls) = pr_user ` set pulls"
    using wild by (simp_all add: resolveUsers_def distinct_arrDedupe set_arrDedupe)
  have none: "\<forall>l \<in> set (logged (fst (checkPRsForRepo gh org repo users age))). \<not> isMissing l"
  proof (cases "getRepo gh org repo age")
    case None
    then show ?thesis by (simp add: checkPRsForRepo_def)
  next
    case (Some pullData)
    let ?pulls = "map toPull pullData"
    obtain rss where log:
      "logged (fst (checkPRsForRepo gh org repo users age)) =
         logged (missingPRs repo (filterPulls users ?pulls) (resolveUsers users ?pulls))
         @ logged (reviewLoop org repo (filterPulls users ?pulls) rss)"
      using logged_checkPRsForRepo [OF Some] by blast
    have "logged (missingPRs repo (filterPulls users ?pulls) (resolveUsers users ?pulls)) = []"
      using wild by (simp add: logged_missingPRs filterPulls_def resolveUsers_def set_arrDedupe)
    moreover have
      "\<forall>l \<in> set (logged (reviewLoop org repo (filterPulls users ?pulls) rss)). \<not> isMissing l"
      using reviewLoop_users by fastforce
    ultimately show ?thesis by (simp add: log)
  qed
  have empty: "getRepo gh org repo age = Some [] \<longrightarrow>
            checkPRsForRepo gh org repo users age = ([GetRepo org repo age], Inr ())"
    using wild by (simp add: checkPRsForRepo_def filterPulls_def resolveUsers_def)
  from res none empty show ?thesis by simp
qed

theorem wildcard_resolves_to_observed_authors_witness:
  "arrayIsWildcard [''@'']
   \<and> resolveUsers [''@''] [\<lparr>pr_id = 1, pr_user = ''alice''\<rparr>, \<lparr>pr_id = 2, pr_user = ''alice''\<rparr>]
        = [''alice'']
   \<and> checkPRsForRepo noPulls ''Ada-C9'' ''widgets'' [''@''] 0
        = ([GetRepo ''Ada-C9'' ''widgets'' 0], Inr ())"
proof -
  have h: "arrayIsWildcard [''@'']" by (simp add: arrayIsWildcard_def)
  have g: "getRepo noPulls ''Ada-C9'' ''widgets'' 0 = Some []" by (simp add: noPulls_def)
  have r: "resolveUsers [''@'']
             [\<lparr>pr_id = 1, pr_user = ''alice''\<rparr>, \<lparr>pr_id = 2, pr_user = ''alice''\<rparr>] = [''alice'']"
    by (simp add: resolveUsers_def h)
  from wildcard_resolves_to_observed_authors [OF h, of "[]" noPulls "''Ada-C9''" "''widgets''" 0]
    g h r
  show ?thesis by blast
qed

section \<open>The staleness cutoff\<close>

text \<open>
  Claim C6. When \<^verbatim>\<open>parseDate\<close> cannot read the \<^verbatim>\<open>maxCacheAge\<close> string,
  \<^verbatim>\<open>_negateDate\<close> throws \<^verbatim>\<open>Invalid maxCacheAge.\<close> and the invocation ends with that
  error, whatever the repositories, the authors and the service are: no task is
  started. When the string parses, the invocation reaches the handler and yields one
  outcome per repository, so a failure inside a task is never this error.
\<close>

theorem invalid_maxCacheAge_aborts_invocation:
  "(parseDate dateStr = None \<longrightarrow>
      negateDate parseDate now dateStr = Inl InvalidMaxCacheAge \<and>
      checkCommand parseDate now gh cfg org repos authors dateStr = Inl InvalidMaxCacheAge)
   \<and> (parseDate dateStr \<noteq> None \<longrightarrow>
      (\<exists>rs. checkCommand parseDate now gh cfg org repos authors dateStr = Inr rs
           \<and> length rs = length (resolveRepos cfg repos)))"
  by (auto simp: negateDate_def checkCommand_def checkHandler_def Let_def)

theorem invalid_maxCacheAge_aborts_invocation_witness:
  "parseExample ''soon'' = None
   \<and> checkCommand parseExample 100000 reviewsDown noConfig ''Ada-C9'' [''widgets''] [''@''] ''soon''
       = Inl InvalidMaxCacheAge
   \<and> parseExample ''60 minutes'' \<noteq> None
   \<and> (\<exists>rs. checkCommand parseExample 100000 reviewsDown noConfig ''Ada-C9'' [''widgets''] [''@'']
              ''60 minutes'' = Inr rs)"
proof -
  have h1: "parseExample ''soon'' = None" by (simp add: parseExample_def)
  have h2: "parseExample ''60 minutes'' \<noteq> None" by (simp add: parseExample_def)
  from h1 h2
    invalid_maxCacheAge_aborts_invocation [of parseExample "''soon''" 100000 reviewsDown
      noConfig "''Ada-C9''" "[''widgets'']" "[''@'']"]
    invalid_maxCacheAge_aborts_invocation [of parseExample "''60 minutes''" 100000 reviewsDown
      noConfig "''Ada-C9''" "[''widgets'']" "[''@'']"]
  show ?thesis by blast
qed

text \<open>
  The handler hands its one \<^verbatim>\<open>opts.maxCacheAge\<close> to every task (line 206), and a task
  passes it on unchanged: every call into \<^verbatim>\<open>./lib/github\<close> made in a run of the
  handler carries that value.
\<close>

lemma handler_passes_one_cutoff:
  "e \<in> set (allEvents (checkHandler gh cfg org repos authors maxCacheAge)) \<Longrightarrow>
   cacheAgeOf e = Some a \<Longrightarrow> a = maxCacheAge"
  by (auto simp: allEvents_def checkHandler_def dest: cacheAge_checkPRsForRepo)

text \<open>
  Claim C7. The staleness cutoff is to be an absolute timestamp in the past, and the
  comment in \<^verbatim>\<open>_negateDate\<close> says the same: the function is to convert its argument
  \<^verbatim>\<open>to a time in the past\<close>. The code computes \<open>now - (parsed - now)\<close> without
  looking at which side of \<open>now\<close> the parsed instant lies. At \<open>now = 100000\<close> the string
  \<^verbatim>\<open>60 minutes ago\<close> parses to the instant \<open>- 3500000\<close>, before \<open>now\<close>; the cutoff is
  then 3700000, which is after \<open>now\<close>, and the invocation hands this future cutoff to
  the fetch of its task.
\<close>

theorem cutoff_after_now_for_past_date:
  "parseExample ''60 minutes ago'' = Some (- 3500000)
   \<and> negateDate parseExample 100000 ''60 minutes ago'' = Inr 3700000
   \<and> \<not> (3700000 < (100000::int))
   \<and> checkCommand parseExample 100000 noPulls noConfig ''Ada-C9'' [''widgets''] [''@'']
         ''60 minutes ago''
       = Inr [([GetRepo ''Ada-C9'' ''widgets'' 3700000], Inr ())]"
  by (simp add: negateDate_def parseExample_def checkCommand_def checkHandler_def
        resolveRepos_def noConfig_def arrayIsWildcard_def checkPRsForRepo_def noPulls_def
        filterPulls_def resolveUsers_def)

section \<open>Output of a failed repository\<close>

text \<open>
  Claim C8 says that a repository whose reconciliation fails prints nothing. The
  \<^verbatim>\<open>no pulls found\<close> lines are handed to \<^verbatim>\<open>sortedLog\<close> before the review fetches are
  awaited, so they stay when a review fetch fails: with the authors alice and bob,
  alice's pull request listed and its review fetch failing, the task rejects and bob's
  line has been logged.
\<close>

theorem failed_repository_partial_output:
  "snd (checkPRsForRepo reviewsDown ''Ada-C9'' ''widgets'' [''alice'', ''bob''] 0) = Inl FetchError
   \<and> logged (fst (checkPRsForRepo reviewsDown ''Ada-C9'' ''widgets'' [''alice'', ''bob''] 0))
       = [NoPullsFound ''bob'' ''widgets'']"
  by (simp add: checkPRsForRepo_def reviewsDown_def toPull_def filterPulls_def resolveUsers_def
        arrayIsWildcard_def)

text \<open>
  Claim C8, amended. A repository whose task rejects logs nothing when the
  pull-request list fetch failed. When a review fetch failed, it logs no line about any
  pull request; it has logged the \<^verbatim>\<open>no pulls found\<close> lines of the authors without a
  pull request, and only those, which are none under the wildcard. The tasks of the
  other repositories of the batch produce what they produce when run alone.
\<close>

theorem failed_repository_logs_only_missing_authors:
  assumes failed: "snd (checkPRsForRepo gh org repo users age) \<noteq> Inr ()"
  shows "(getRepo gh org repo age = None \<longrightarrow>
            logged (fst (checkPRsForRepo gh org repo users age)) = [])
       \<and> (\<forall>pullData. getRepo gh org repo age = Some pullData \<longrightarrow>
            logged (fst (checkPRsForRepo gh org repo users age)) =
              map (\<lambda>u. NoPullsFound u repo)
                (filter (\<lambda>u. u \<notin> login ` set pullData)
                   (resolveUsers users (map toPull pullData))))
       \<and> reportedPulls (fst (checkPRsForRepo gh org repo users age)) = []
       \<and> (arrayIsWildcard users \<longrightarrow> logged (fst (checkPRsForRepo gh org repo users age)) = [])
       \<and> (\<forall>i < length (resolveRepos cfg repos).
            checkHandler gh cfg org repos users age ! i =
              checkPRsForRepo gh org (resolveRepos cfg repos ! i) users age)"
proof -
  have none: "getRepo gh org repo age = None \<Longrightarrow>
      logged (fst (checkPRsForRepo gh org repo users age)) = []"
    by (simp add: checkPRsForRepo_def)
  have some: "logged (fst (checkPRsForRepo gh org repo users age)) =
              map (\<lambda>u. NoPullsFound u repo)
                (filter (\<lambda>u. u \<notin> login ` set pullData)
                   (resolveUsers users (map toPull pullData)))"
    if ok: "getRepo gh org repo age = Some pullData" for pullData
  proof -
    obtain rss where log: "logged (fst (checkPRsForRepo gh org repo users age)) =
           logged (missingPRs repo (filterPulls users (map toPull pullData))
                     (resolveUsers users (map toPull pullData)))
           @ logged (reviewLoop org repo (filterPulls users (map toPull pullData)) rss)"
      and "rss = []"
      using logged_checkPRsForRepo [OF ok, of users] failed by blast
    then show ?thesis by (simp add: missing_lines)
  qed
  have rep: "reportedPulls (fst (checkPRsForRepo gh org repo users age)) = []"
  proof (cases "getRepo gh org repo age")
    case None
    then show ?thesis by (simp add: reportedPulls_def none)
  next
    case (Some pullData)
    have "filter (\<lambda>l. \<not> isMissing l) (map (\<lambda>u. NoPullsFound u repo) us) = []" for us
      by (induction us) auto
    then show ?thesis by (simp add: reportedPulls_def some [OF Some])
  qed
  have wild: "arrayIsWildcard users \<Longrightarrow>
      logged (fst (checkPRsForRepo gh org repo users age)) = []"
  proof (cases "getRepo gh org repo age")
    case None
    then show ?thesis by (simp add: none)
  next
    case (Some pullData)
    assume "arrayIsWildcard users"
    then show ?thesis by (simp add: some [OF Some] missing_lines_wildcard)
  qed
  have batch: "\<forall>i < length (resolveRepos cfg repos).
            checkHandler gh cfg org repos users age ! i =
              checkPRsForRepo gh org (resolveRepos cfg repos ! i) users age"
    by (simp add: checkHandler_def)
  from none some rep wild batch show ?thesis by blast
qed

theorem failed_repository_logs_only_missing_authors_witness:
  "snd (checkPRsForRepo reviewsDown ''Ada-C9'' ''widgets'' [''alice'', ''bob''] 0) \<noteq> Inr ()
   \<and> reportedPulls (fst (checkPRsForRepo reviewsDown ''Ada-C9'' ''widgets'' [''alice'', ''bob''] 0))
       = []"
proof -
  have h: "snd (checkPRsForRepo reviewsDown ''Ada-C9'' ''widgets'' [''alice'', ''bob''] 0) \<noteq> Inr ()"
    by (simp add: checkPRsForRepo_def reviewsDown_def toPull_def filterPulls_def resolveUsers_def
        arrayIsWildcard_def)
  from failed_repository_logs_only_missing_authors [OF h] h show ?thesis by blast
qed

section \<open>Wildcards and the default organisation\<close>

text \<open>
  Claim C9. \<^verbatim>\<open>_arrayIsWildcard\<close> holds of the one-element list \<^verbatim>\<open>['@']\<close> and of no
  other list. A list that contains \<^verbatim>\<open>'@'\<close> next to other entries is therefore taken
  literally: as repository list it is not replaced by the configured repositories, and
  one task is started per entry, \<^verbatim>\<open>'@'\<close> included; as author list it stays the list
  of users, and the pull requests are filtered by membership in it.
\<close>

theorem wildcard_only_singleton:
  "(arrayIsWildcard xs \<longleftrightarrow> xs = [''@''])
   \<and> (''@'' \<in> set xs \<and> xs \<noteq> [''@''] \<longrightarrow>
        \<not> arrayIsWildcard xs
        \<and> resolveRepos cfg xs = xs
        \<and> checkHandler gh cfg org xs authors age
            = map (\<lambda>repo. checkPRsForRepo gh org repo authors age) xs
        \<and> resolveUsers xs pulls = xs
        \<and> filterPulls xs pulls = filter (\<lambda>pr. pr_user pr \<in> set xs) pulls)"
  by (auto simp: arrayIsWildcard_iff resolveRepos_def checkHandler_def resolveUsers_def
        filterPulls_def)

theorem wildcard_only_singleton_witness:
  "''@'' \<in> set [''@'', ''x''] \<and> [''@'', ''x''] \<noteq> [''@'']
   \<and> \<not> arrayIsWildcard [''@'', ''x'']
   \<and> resolveRepos \<lparr>githubOrg = None, allGithubRepos = Some [''widgets'']\<rparr> [''@'', ''x'']
        = [''@'', ''x'']
   \<and> resolveUsers [''@'', ''x''] [\<lparr>pr_id = 1, pr_user = ''alice''\<rparr>] = [''@'', ''x'']
   \<and> filterPulls [''@'', ''x''] [\<lparr>pr_id = 1, pr_user = ''alice''\<rparr>] = []"
  using wildcard_only_singleton [of "[''@'', ''x'']"
          "\<lparr>githubOrg = None, allGithubRepos = Some [''widgets'']\<rparr>"
          widgets "''Ada-C9''" "[''@'']" 0 "[\<lparr>pr_id = 1, pr_user = ''alice''\<rparr>]"]
  by simp

text \<open>
  Claim C10. Without a configured \<^verbatim>\<open>githubOrg\<close> the default of \<^verbatim>\<open>org\<close> is
  \<^verbatim>\<open>Ada-C\<close> followed by the number of months since 2013-06-01 divided by 6 and
  rounded down, and nothing is printed. A configured name that starts with
  \<^verbatim>\<open>Ada-C\<close> and differs from that name makes the program print the two warning lines,
  and the configured name is the value used.
\<close>

theorem org_default_cohort:
  "orgDefault months None = ([], ''Ada-C'' @ showInt (months div 6))
   \<and> (startsWith cfgOrg ''Ada-C'' \<and> cfgOrg \<noteq> ''Ada-C'' @ showInt (months div 6) \<longrightarrow>
        orgDefault months (Some cfgOrg) =
          ([''WARN GitHub org name may be outdated!'',
            char_of (9::nat) # cfgOrg @ '' --> '' @ ''Ada-C'' @ showInt (months div 6)], cfgOrg))"
  by (auto simp: orgDefault_def autoOrgName_def startsWith_def)

theorem org_default_cohort_witness:
  "startsWith ''Ada-C9'' ''Ada-C'' \<and> ''Ada-C9'' \<noteq> ''Ada-C'' @ showInt (161 div 6)
   \<and> orgDefault 161 None = ([], ''Ada-C26'')
   \<and> snd (orgDefault 161 (Some ''Ada-C9'')) = ''Ada-C9''
   \<and> fst (orgDefault 161 (Some ''Ada-C9'')) \<noteq> []"
proof -
  have s: "showInt 26 = ''26''" by code_simp
  have h: "startsWith ''Ada-C9'' ''Ada-C'' \<and> ''Ada-C9'' \<noteq> ''Ada-C'' @ showInt (161 div 6)"
    by (simp add: s startsWith_def)
  from org_default_cohort [of 161 "''Ada-C9''"] h s show ?thesis by simp
qed

section \<open>Lemmas about the limiter\<close>

lemma length_filter_update:
  "i < length xs \<Longrightarrow>
   length (filter P (xs[i := v])) + (if P (xs ! i) then 1 else 0)
     = length (filter P xs) + (if P v then 1 else 0)"
proof (induction xs arbitrary: i)
  case Nil
  then show ?case by simp
next
  case (Cons x xs)
  then show ?case by (cases i) auto
qed

lemma running_update:
  assumes "i < length (tasks s)"
  shows "running (s\<lparr>tasks := (tasks s)[i := v]\<rparr>) + (if tasks s ! i = Running then 1 else 0)
     = running s + (if v = Running then 1 else 0)"
proof -
  have t: "tasks (s\<lparr>tasks := (tasks s)[i := v]\<rparr>) = (tasks s)[i := v]" by simp
  show ?thesis
    unfolding running_def t
    using length_filter_update [OF assms, of "\<lambda>t. t = Running" v] .
qed

lemma pending_update:
  assumes "i < length (tasks s)"
  shows "pending (s\<lparr>tasks := (tasks s)[i := v]\<rparr>) + (if \<not> settled (tasks s ! i) then 1 else 0)
     = pending s + (if \<not> settled v then 1 else 0)"
proof -
  have t: "tasks (s\<lparr>tasks := (tasks s)[i := v]\<rparr>) = (tasks s)[i := v]" by simp
  show ?thesis
    unfolding pending_def t
    using length_filter_update [OF assms, of "\<lambda>t. \<not> settled t" v] .
qed

lemma wellformed_init: "wellformed k \<lparr>activeCount = 0, queue = [], tasks = []\<rparr>"
  by (simp add: wellformed_def running_def)

lemma wellformedD:
  assumes "wellformed k s"
  shows "activeCount s = running s" "activeCount s \<le> k"
    "queue s \<noteq> [] \<Longrightarrow> activeCount s = k" "distinct (queue s)"
    "set (queue s) = {i. i < length (tasks s) \<and> tasks s ! i = Queued}"
  using assms by (simp_all add: wellformed_def)

lemma wellformedI:
  assumes "activeCount s = running s" "activeCount s \<le> k"
    "queue s \<noteq> [] \<Longrightarrow> activeCount s = k" "distinct (queue s)"
    "set (queue s) = {i. i < length (tasks s) \<and> tasks s ! i = Queued}"
  shows "wellformed k s"
  using assms by (simp add: wellformed_def)

lemma wellformed_enqueue:
  assumes wf: "wellformed k s"
  shows "wellformed k (enqueue k s)"
proof (cases "activeCount s < k")
  case True
  have q: "queue s = []" using wellformedD(3) [OF wf] True by auto
  have e: "enqueue k s = s\<lparr>activeCount := activeCount s + 1, tasks := tasks s @ [Running]\<rparr>"
    using True by (simp add: enqueue_def run_def Let_def)
  have none: "{i. i < length (tasks s) \<and> tasks s ! i = Queued} = {}"
    using wellformedD(5) [OF wf] q by simp
  have "{i. i < Suc (length (tasks s)) \<and> (tasks s @ [Running]) ! i = Queued} = {}"
    using none by (auto simp: nth_append split: if_splits)
  then show ?thesis
    unfolding e using True q wellformedD(1) [OF wf]
    by (intro wellformedI) (simp_all add: running_def)
next
  case False
  have a: "activeCount s = k" using wellformedD(2) [OF wf] False by simp
  have e: "enqueue k s = s\<lparr>tasks := tasks s @ [Queued], queue := queue s @ [length (tasks s)]\<rparr>"
    using False by (simp add: enqueue_def Let_def)
  have "{i. i < Suc (length (tasks s)) \<and> (tasks s @ [Queued]) ! i = Queued}
          = insert (length (tasks s)) {i. i < length (tasks s) \<and> tasks s ! i = Queued}"
    by (auto simp: nth_append less_Suc_eq)
  moreover have "length (tasks s) \<notin> set (queue s)"
    using wellformedD(5) [OF wf] by simp
  ultimately show ?thesis
    unfolding e using a wellformedD(1,4,5) [OF wf]
    by (intro wellformedI) (simp_all add: running_def)
qed

lemma pending_enqueue: "pending (enqueue k s) = Suc (pending s)"
  by (simp add: enqueue_def run_def Let_def pending_def settled_def)

lemma length_tasks_enqueue: "length (tasks (enqueue k s)) = Suc (length (tasks s))"
  by (simp add: enqueue_def run_def Let_def)

lemma settle_cases:
  assumes "settle s (i, ok) = Some s'"
  obtains (idle) "i < length (tasks s)" "tasks s ! i = Running" "queue s = []"
      "s' = s\<lparr>tasks := (tasks s)[i := outcome ok], activeCount := activeCount s - 1\<rparr>"
  | (admit) j q where "i < length (tasks s)" "tasks s ! i = Running" "queue s = j # q"
      "s' = s\<lparr>tasks := (tasks s)[i := outcome ok, j := Running], queue := q,
              activeCount := activeCount s - 1 + 1\<rparr>"
proof -
  from assms have i: "i < length (tasks s)" "tasks s ! i = Running"
    and s': "s' = admitNext (s\<lparr>tasks := (tasks s)[i := outcome ok]\<rparr>)"
    by (auto simp: outcome_def split: if_splits)
  show thesis
  proof (cases "queue s")
    case Nil
    with s' have "s' = s\<lparr>tasks := (tasks s)[i := outcome ok], activeCount := activeCount s - 1\<rparr>"
      by (simp add: admitNext_def Let_def)
    with i Nil show thesis by (rule idle)
  next
    case (Cons j q)
    with s' have "s' = s\<lparr>tasks := (tasks s)[i := outcome ok, j := Running], queue := q,
              activeCount := activeCount s - 1 + 1\<rparr>"
      by (simp add: admitNext_def Let_def run_def)
    with i Cons show thesis by (rule admit)
  qed
qed

lemma running_pos:
  assumes "i < length (tasks s)" "tasks s ! i = Running"
  shows "0 < running s"
  using running_update [OF assms(1), of Fulfilled] assms(2) by simp

lemma wellformed_settle:
  assumes wf: "wellformed k s" and st: "settle s (i, ok) = Some s'"
  shows "wellformed k s' \<and> Suc (pending s') = pending s \<and> length (tasks s') = length (tasks s)"
  using st
proof (cases rule: settle_cases)
  case idle
  have r: "running (s\<lparr>tasks := (tasks s)[i := outcome ok]\<rparr>) + 1 = running s"
    using running_update [OF idle(1), of "outcome ok"] idle(2) by (simp add: outcome_def)
  have p: "pending (s\<lparr>tasks := (tasks s)[i := outcome ok]\<rparr>) + 1 = pending s"
    using pending_update [OF idle(1), of "outcome ok"] idle(2)
    by (simp add: outcome_def settled_def)
  have q: "{j. j < length (tasks s) \<and> (tasks s)[i := outcome ok] ! j = Queued}
         = {j. j < length (tasks s) \<and> tasks s ! j = Queued}"
    using idle(1,2) by (auto simp: nth_list_update outcome_def split: if_splits)
  have "wellformed k s'"
    unfolding idle(4)
    using wellformedD [OF wf] r idle(3) q
    by (intro wellformedI) (simp_all add: running_def)
  moreover have "Suc (pending s') = pending s"
    unfolding idle(4) using p by (simp add: pending_def)
  ultimately show ?thesis by (simp add: idle(4))
next
  case (admit j q)
  have jq: "j \<in> set (queue s)" using admit(3) by simp
  then have j: "j < length (tasks s)" "tasks s ! j = Queued"
    using wellformedD(5) [OF wf] by auto
  have ij: "i \<noteq> j" using j(2) admit(2) by auto
  let ?s1 = "s\<lparr>tasks := (tasks s)[i := outcome ok]\<rparr>"
  have r1: "running ?s1 + 1 = running s"
    using running_update [OF admit(1), of "outcome ok"] admit(2) by (simp add: outcome_def)
  have p1: "pending ?s1 + 1 = pending s"
    using pending_update [OF admit(1), of "outcome ok"] admit(2)
    by (simp add: outcome_def settled_def)
  have j1: "j < length (tasks ?s1)" "tasks ?s1 ! j = Queued"
    using j ij by simp_all
  have r2: "running (?s1\<lparr>tasks := (tasks ?s1)[j := Running]\<rparr>) = running ?s1 + 1"
    using running_update [OF j1(1), of Running] j1(2) by simp
  have p2: "pending (?s1\<lparr>tasks := (tasks ?s1)[j := Running]\<rparr>) = pending ?s1"
    using pending_update [OF j1(1), of Running] j1(2) by (simp add: settled_def)
  have t: "tasks s' = (tasks s)[i := outcome ok, j := Running]"
    by (simp add: admit(4))
  have r: "running s' = running s"
    using r1 r2 by (simp add: running_def t)
  have p: "Suc (pending s') = pending s"
    using p1 p2 by (simp add: pending_def t)
  have a: "activeCount s = k"
    using wellformedD(3) [OF wf] admit(3) by simp
  have pos: "0 < activeCount s"
    using running_pos [OF admit(1,2)] wellformedD(1) [OF wf] by simp
  have d: "distinct q" "j \<notin> set q"
    using wellformedD(4) [OF wf] admit(3) by simp_all
  have qs: "set q = {n. n < length (tasks s) \<and> (tasks s)[i := outcome ok, j := Running] ! n = Queued}"
  proof -
    have "set q = set (queue s) - {j}" using d admit(3) by auto
    also have "\<dots> = {n. n < length (tasks s) \<and> tasks s ! n = Queued} - {j}"
      using wellformedD(5) [OF wf] by simp
    also have "\<dots> = {n. n < length (tasks s) \<and> (tasks s)[i := outcome ok, j := Running] ! n = Queued}"
      using admit(1,2) j by (auto simp: nth_list_update outcome_def split: if_splits)
    finally show ?thesis .
  qed
  have "wellformed k s'"
  proof (rule wellformedI)
    show "activeCount s' = running s'"
      using r pos wellformedD(1) [OF wf] by (simp add: admit(4))
    show "activeCount s' \<le> k" using a pos by (simp add: admit(4))
    show "activeCount s' = k" using a pos by (simp add: admit(4))
    show "distinct (queue s')" using d by (simp add: admit(4))
    show "set (queue s') = {i. i < length (tasks s') \<and> tasks s' ! i = Queued}"
      using qs by (simp add: admit(4))
  qed
  with p t show ?thesis by simp
qed

lemma wellformed_exec:
  "wellformed k s \<Longrightarrow> exec s es = Some s' \<Longrightarrow>
   wellformed k s' \<and> pending s' + length es = pending s \<and> length (tasks s') = length (tasks s)"
proof (induction es arbitrary: s)
  case Nil
  then show ?case by simp
next
  case (Cons e es)
  obtain i ok where e: "e = (i, ok)" by (cases e)
  from Cons.prems(2) obtain s1 where s1: "settle s (i, ok) = Some s1" "exec s1 es = Some s'"
    by (auto simp: e split: option.splits)
  from wellformed_settle [OF Cons.prems(1) s1(1)] Cons.IH [OF _ s1(2)]
  show ?case by auto
qed

lemma fold_enqueue:
  "wellformed k s \<Longrightarrow>
   wellformed k (fold (\<lambda>repo. enqueue k) repos s)
   \<and> pending (fold (\<lambda>repo. enqueue k) repos s) = pending s + length repos
   \<and> length (tasks (fold (\<lambda>repo. enqueue k) repos s)) = length (tasks s) + length repos"
proof (induction repos arbitrary: s)
  case Nil
  then show ?case by simp
next
  case (Cons r repos)
  from Cons.IH [OF wellformed_enqueue [OF Cons.prems]]
  show ?case by (simp add: pending_enqueue length_tasks_enqueue)
qed

lemma submit_wellformed:
  "wellformed MAX_CONCURRENT_REPO_CHECKS (submit repos)"
  "pending (submit repos) = length repos"
  "length (tasks (submit repos)) = length repos"
  using fold_enqueue [OF wellformed_init, of MAX_CONCURRENT_REPO_CHECKS repos]
  by (simp_all add: submit_def pending_def)

lemma pending_zero_iff: "pending s = 0 \<longleftrightarrow> list_all settled (tasks s)"
  by (simp add: pending_def list_all_iff filter_empty_conv)

lemma running_body_exists:
  assumes wf: "wellformed k s" and k: "0 < k" and p: "\<not> list_all settled (tasks s)"
  shows "\<exists>i < length (tasks s). tasks s ! i = Running"
proof -
  from p obtain n where n: "n < length (tasks s)" "\<not> settled (tasks s ! n)"
    by (auto simp: list_all_length)
  have "0 < running s"
  proof (cases "tasks s ! n")
    case Queued
    with n have "n \<in> set (queue s)" using wellformedD(5) [OF wf] by simp
    then have "queue s \<noteq> []" by auto
    with wellformedD(1,3) [OF wf] k show ?thesis by simp
  next
    case Running
    with n show ?thesis by (simp add: running_pos)
  qed (use n in \<open>simp_all add: settled_def\<close>)
  then obtain t where "t \<in> set (filter (\<lambda>t. t = Running) (tasks s))"
    unfolding running_def by (metis length_greater_0_conv last_in_set)
  then have "Running \<in> set (tasks s)" by auto
  then show ?thesis by (auto simp: in_set_conv_nth)
qed

lemmas limiter_eval = submit_def enqueue_def run_def admitNext_def Let_def
  MAX_CONCURRENT_REPO_CHECKS_def running_def batchPromise_def settled_def

section \<open>Concurrency of the repository tasks\<close>

text \<open>
  Claim C1. Take any list of repositories submitted by the handler and any order in which
  task bodies settle. In every state reached, at most 5 bodies are running. Every body
  settles at most once, so a schedule has at most as many completions as there are
  tasks; as long as a task has not settled some body is running, so the limiter itself
  never holds the batch up; and once as many bodies have settled as there are tasks,
  all tasks have settled. (A body that never settles, such as a hung fetch, is outside
  the schedule: the tasks behind it wait.)
\<close>

theorem at_most_five_bodies_running:
  assumes "exec (submit repos) schedule = Some s"
  shows "running s \<le> 5
       \<and> length (tasks s) = length repos
       \<and> length schedule \<le> length repos
       \<and> (list_all settled (tasks s) \<longleftrightarrow> length schedule = length repos)
       \<and> (\<not> list_all settled (tasks s) \<longrightarrow>
            (\<exists>i < length repos. tasks s ! i = Running
               \<and> settle s (i, True) \<noteq> None \<and> settle s (i, False) \<noteq> None))"
proof -
  note wf = wellformed_exec [OF submit_wellformed(1) assms]
  have wfs: "wellformed MAX_CONCURRENT_REPO_CHECKS s" using wf by simp
  have cnt: "pending s + length schedule = length repos"
    using wf by (simp add: submit_wellformed(2))
  have len: "length (tasks s) = length repos"
    using wf by (simp add: submit_wellformed(3))
  have bound: "running s \<le> 5"
    using wellformedD(1,2) [OF wfs] by (simp add: MAX_CONCURRENT_REPO_CHECKS_def)
  have fin: "list_all settled (tasks s) \<longleftrightarrow> length schedule = length repos"
    using cnt pending_zero_iff [of s] by auto
  have prog: "\<exists>i < length repos. tasks s ! i = Running
               \<and> settle s (i, True) \<noteq> None \<and> settle s (i, False) \<noteq> None"
    if "\<not> list_all settled (tasks s)"
  proof -
    from running_body_exists [OF wfs _ that]
    obtain i where "i < length (tasks s)" "tasks s ! i = Running"
      by (auto simp: MAX_CONCURRENT_REPO_CHECKS_def)
    then show ?thesis using len by auto
  qed
  from bound len cnt fin prog show ?thesis by auto
qed

theorem at_most_five_bodies_running_witness:
  "exec (submit sevenRepos) [(0, False), (3, True)] =
     Some \<lparr>activeCount = 5, queue = [],
           tasks = [Rejected, Running, Running, Fulfilled, Running, Running, Running]\<rparr>
   \<and> running \<lparr>activeCount = 5, queue = [],
           tasks = [Rejected, Running, Running, Fulfilled, Running, Running, Running]\<rparr> \<le> 5
   \<and> length (tasks (submit sevenRepos)) = 7"
proof -
  have h: "exec (submit sevenRepos) [(0, False), (3, True)] =
     Some \<lparr>activeCount = 5, queue = [],
           tasks = [Rejected, Running, Running, Fulfilled, Running, Running, Running]\<rparr>"
    by (simp add: sevenRepos_def limiter_eval)
  have e: "exec (submit sevenRepos) [] = Some (submit sevenRepos)" by simp
  from at_most_five_bodies_running [OF h] at_most_five_bodies_running [OF e] h show ?thesis by (simp add: sevenRepos_def)
qed

text \<open>
  Claim C2 says that the completion of the batch is reported only after every task has
  settled. The handler returns \<^verbatim>\<open>Promise.all(promises)\<close>, which rejects with the first
  task that rejects: with the repositories \<^verbatim>\<open>broken\<close> and \<^verbatim>\<open>widgets\<close>, when the
  task of \<^verbatim>\<open>broken\<close> fails on its list fetch while the task of \<^verbatim>\<open>widgets\<close> is still
  running, the batch promise is already rejected.
\<close>

theorem batch_rejects_before_all_settled:
  "snd (checkPRsForRepo brokenRepo ''Ada-C9'' ''broken'' [''@''] 0) = Inl FetchError
   \<and> exec (submit [''broken'', ''widgets'']) [(0, False)] =
     Some \<lparr>activeCount = 1, queue = [], tasks = [Rejected, Running]\<rparr>
   \<and> batchPromise \<lparr>activeCount = 1, queue = [], tasks = [Rejected, Running]\<rparr> = AllRejected
   \<and> \<not> list_all settled [Rejected, Running]"
  by (simp add: limiter_eval checkPRsForRepo_def brokenRepo_def)

text \<open>
  Claim C2, amended. In any state of a batch, when the body of a running task fails:
  the task behind it in the queue, if any, is admitted at once; every other task keeps
  its state, so no sibling is cancelled; as long as some task has not settled a body is
  running, so the remaining tasks go on to settle; and the batch promise is rejected
  from that moment, without waiting for the other tasks. The batch promise is fulfilled
  exactly when every task has fulfilled.
\<close>

theorem failure_leaves_siblings_running:
  assumes reach: "exec (submit repos) schedule = Some s"
    and fail: "settle s (i, False) = Some s'"
  shows "batchPromise s' = AllRejected
       \<and> (\<forall>j < length repos. j \<noteq> i \<longrightarrow>
            tasks s' ! j = tasks s ! j \<or> (tasks s ! j = Queued \<and> tasks s' ! j = Running))
       \<and> (queue s \<noteq> [] \<longrightarrow> tasks s' ! hd (queue s) = Running \<and> queue s' = tl (queue s))
       \<and> (\<not> list_all settled (tasks s') \<longrightarrow> (\<exists>j < length repos. tasks s' ! j = Running))
       \<and> (batchPromise s = AllFulfilled \<longleftrightarrow> list_all (\<lambda>t. t = Fulfilled) (tasks s))"
proof -
  note wf0 = wellformed_exec [OF submit_wellformed(1) reach]
  have wf: "wellformed MAX_CONCURRENT_REPO_CHECKS s" using wf0 by simp
  have len: "length (tasks s) = length repos" using wf0 by (simp add: submit_wellformed(3))
  note wf1 = wellformed_settle [OF wf fail]
  have wf': "wellformed MAX_CONCURRENT_REPO_CHECKS s'" using wf1 by simp
  have len': "length (tasks s') = length repos" using wf1 len by simp
  have prog: "\<not> list_all settled (tasks s') \<longrightarrow> (\<exists>j < length repos. tasks s' ! j = Running)"
    using running_body_exists [OF wf'] len' by (auto simp: MAX_CONCURRENT_REPO_CHECKS_def)
  have all: "batchPromise s = AllFulfilled \<longleftrightarrow> list_all (\<lambda>t. t = Fulfilled) (tasks s)"
    by (auto simp: batchPromise_def list_ex_iff list_all_iff)
  have rest: "batchPromise s' = AllRejected
       \<and> (\<forall>j < length repos. j \<noteq> i \<longrightarrow>
            tasks s' ! j = tasks s ! j \<or> (tasks s ! j = Queued \<and> tasks s' ! j = Running))
       \<and> (queue s \<noteq> [] \<longrightarrow> tasks s' ! hd (queue s) = Running \<and> queue s' = tl (queue s))"
    using fail
  proof (cases rule: settle_cases)
    case idle
    have "tasks s' ! i = Rejected" using idle(1) by (simp add: idle(4) outcome_def)
    then have "Rejected \<in> set (tasks s')" using idle(1) len len' by (metis nth_mem)
    then show ?thesis
      using idle(3) by (auto simp: batchPromise_def list_ex_iff idle(4))
  next
    case (admit j q)
    have "j \<in> set (queue s)" using admit(3) by simp
    then have j: "j < length (tasks s)" "tasks s ! j = Queued"
      using wellformedD(5) [OF wf] by auto
    have ij: "i \<noteq> j" using j(2) admit(2) by auto
    have "tasks s' ! i = Rejected" using admit(1) ij by (simp add: admit(4) outcome_def)
    then have "Rejected \<in> set (tasks s')" using admit(1) len len' by (metis nth_mem)
    then have b: "batchPromise s' = AllRejected" by (simp add: batchPromise_def list_ex_iff)
    have sib: "\<forall>n < length repos. n \<noteq> i \<longrightarrow>
            tasks s' ! n = tasks s ! n \<or> (tasks s ! n = Queued \<and> tasks s' ! n = Running)"
      using j len by (auto simp: admit(4) nth_list_update)
    have adm: "tasks s' ! hd (queue s) = Running \<and> queue s' = tl (queue s)"
      using j by (simp add: admit(3,4))
    from b sib adm show ?thesis by simp
  qed
  from rest prog all show ?thesis by simp
qed

theorem failure_leaves_siblings_running_witness:
  "exec (submit sevenRepos) [] = Some (submit sevenRepos)
   \<and> settle (submit sevenRepos) (0, False) =
       Some \<lparr>activeCount = 5, queue = [6],
             tasks = [Rejected, Running, Running, Running, Running, Running, Queued]\<rparr>
   \<and> batchPromise \<lparr>activeCount = 5, queue = [6],
             tasks = [Rejected, Running, Running, Running, Running, Running, Queued]\<rparr>
       = AllRejected"
proof -
  have h1: "exec (submit sevenRepos) [] = Some (submit sevenRepos)" by simp
  have h2: "settle (submit sevenRepos) (0, False) =
       Some \<lparr>activeCount = 5, queue = [6],
             tasks = [Rejected, Running, Running, Running, Running, Running, Queued]\<rparr>"
    by (simp add: sevenRepos_def limiter_eval)
  from failure_leaves_siblings_running [OF h1 h2] h1 h2 show ?thesis by simp
qed

end
